theory Spec2Isabelle
  imports Main "HOL-Library.Word"
begin

section \<open>membench.c: the memory latency benchmark\<close>

text \<open>
  A shallow embedding of \<^verbatim>\<open>benchmarks/mem/membench.c\<close>. Unsigned C integers are
  32 and 64 bit words, a pointer to a node of an arena is the index of the node, and
  every behaviour the C standard leaves undefined (an access outside an object, a
  dereference of a pointer that is no node) is a value of type \<open>fault\<close>, as are
  \<^verbatim>\<open>exit\<close> and a failed \<^verbatim>\<open>assert\<close>. What the program takes from its environment is
  an argument of the function that uses it: the values of \<^verbatim>\<open>rand()\<close>, the readings of
  the clock and of the cycle counter, the outcome of \<^verbatim>\<open>pthread_setaffinity_np\<close>, the options
  \<^verbatim>\<open>getopt\<close> finds. Printing is left out.
\<close>

type_synonym u32 = "32 word"
type_synonym u64 = "64 word"

subsection \<open>Data model\<close>

text \<open>
  The values a \<^verbatim>\<open>struct s *\<close> takes in the program: \<^verbatim>\<open>NULL\<close>, the marker
  \<^verbatim>\<open>(struct s*)1\<close> of \<^verbatim>\<open>prepare\<close>, and \<^verbatim>\<open>&array[k]\<close>. Arenas are aligned to
  2 MiB and nodes are 64 bytes, so the three are pairwise different.
\<close>

datatype pointer = Null | Occupied | Addr nat

text \<open>\<^verbatim>\<open>sizeof(struct s*)\<close> on the LP64 targets of the benchmark, and \<^verbatim>\<open>ARRAY_SIZE(s.dummy)\<close>.\<close>

definition PTR_SIZE :: nat where
  "PTR_SIZE = 8"

definition DUMMY_LEN :: nat where
  "DUMMY_LEN = (64 - PTR_SIZE) div 4"

text \<open>\<^verbatim>\<open>struct s { struct s *ptr; uint32_t dummy[...]; }\<close>\<close>

record s =
  ptr :: pointer
  dummy :: "u32 list"

datatype fault =
    OutOfBounds      \<comment> \<open>undefined behaviour: an access outside the array\<close>
  | BadPointer       \<comment> \<open>undefined behaviour: dereference of NULL or of the marker\<close>
  | AssertFailed     \<comment> \<open>\<^verbatim>\<open>assert\<close> aborts\<close>
  | BadBarrier       \<comment> \<open>undefined behaviour: \<^verbatim>\<open>pthread_barrier_destroy\<close> of a barrier never initialised\<close>
  | Exit nat         \<comment> \<open>\<^verbatim>\<open>exit(status)\<close>, \<^verbatim>\<open>errx(status, ...)\<close>\<close>

subsection \<open>Traversal engine\<close>

text \<open>
  The state of a traversal: the arena, the cursor \<^verbatim>\<open>p\<close>, and a ghost counter of the
  executed statements \<^verbatim>\<open>p = p->ptr\<close>.
\<close>

record walk =
  arr :: "s list"
  cur :: pointer
  steps :: nat

text \<open>\<open>n\<close> statements in a row; the first fault ends the run.\<close>

fun iter :: "nat \<Rightarrow> ('a \<Rightarrow> fault + 'a) \<Rightarrow> 'a \<Rightarrow> fault + 'a" where
  "iter 0 f x = Inr x"
| "iter (Suc n) f x = (case f x of Inl e \<Rightarrow> Inl e | Inr y \<Rightarrow> iter n f y)"

text \<open>
  \<^verbatim>\<open>unsigned i = ...; while (--i) { body }\<close>: the counter is decremented (modulo
  \<open>2^32\<close>) before it is tested. The second component of the result counts the
  executions of the body.
\<close>

lemma unat_pred_less: "x \<noteq> (0::u32) \<Longrightarrow> unat (x - 1) < unat x"
proof -
  assume nz: "x \<noteq> 0"
  then have "unat (x - 1) = unat x - 1"
    by (rule unat_minus_one)
  moreover from nz have "0 < unat x"
    by (simp add: unat_gt_0)
  ultimately show ?thesis
    by simp
qed

function while_predec ::
  "u32 \<Rightarrow> ('a \<Rightarrow> fault + 'a) \<Rightarrow> 'a \<Rightarrow> nat \<Rightarrow> fault + ('a \<times> nat)" where
  "while_predec i body st n =
     (let i' = i - 1 in
      if i' \<noteq> 0 then
        (case body st of
           Inl e \<Rightarrow> Inl e
         | Inr st' \<Rightarrow> while_predec i' body st' (n + 1))
      else Inr (st, n))"
  by pat_completeness auto
termination
proof (relation "measure (\<lambda>(i, body, st, n). unat (i - 1))")
  fix i x :: u32
  assume "x = i - 1" and "x \<noteq> 0"
  then show "((x, body, st', n + 1), (i, body, st, n))
       \<in> measure (\<lambda>(i, body, st, n). unat (i - 1))"
    for body :: "'a \<Rightarrow> fault + 'a" and st st' :: 'a and n :: nat
    using unat_pred_less [of x] by simp
qed simp

declare while_predec.simps [simp del]

text \<open>\<^verbatim>\<open>p = p->ptr;\<close>\<close>

definition read_step :: "walk \<Rightarrow> fault + walk" where
  "read_step w =
     (case cur w of
        Addr k \<Rightarrow>
          if k < length (arr w)
          then Inr (w\<lparr>cur := ptr (arr w ! k), steps := steps w + 1\<rparr>)
          else Inl OutOfBounds
      | _ \<Rightarrow> Inl BadPointer)"

text \<open>
  \<^verbatim>\<open>p->dummy[ofs]++; p = p->ptr;\<close> An offset outside \<^verbatim>\<open>dummy\<close> is an access outside
  the array.
\<close>

definition write_step :: "u32 \<Rightarrow> walk \<Rightarrow> fault + walk" where
  "write_step ofs w =
     (case cur w of
        Addr k \<Rightarrow>
          if k < length (arr w) then
            if unat ofs < DUMMY_LEN then
              (let nd = arr w ! k;
                   nd' = nd\<lparr>dummy := (dummy nd)[unat ofs := dummy nd ! unat ofs + 1]\<rparr>
               in Inr (w\<lparr>arr := (arr w)[k := nd'], cur := ptr nd', steps := steps w + 1\<rparr>))
            else Inl OutOfBounds
          else Inl OutOfBounds
      | _ \<Rightarrow> Inl BadPointer)"

text \<open>
  \<^verbatim>\<open>do_read\<close> and \<^verbatim>\<open>do_write\<close>: the loop body is the step written 32 times. The
  result is the final state and the number of executed batches.
\<close>

definition start :: "s list \<Rightarrow> walk" where
  "start array = \<lparr>arr = array, cur = Addr 0, steps = 0\<rparr>"

definition do_read :: "s list \<Rightarrow> u32 \<Rightarrow> fault + (walk \<times> nat)" where
  "do_read array reads =
     (let i = reads div 32
      in while_predec i (iter 32 read_step) (start array) 0)"

definition do_write :: "s list \<Rightarrow> u32 \<Rightarrow> u32 \<Rightarrow> fault + (walk \<times> nat)" where
  "do_write array accesses ofs =
     (let i = accesses div 32
      in while_predec i (iter 32 (write_step ofs)) (start array) 0)"

subsection \<open>Cycle generator\<close>

text \<open>\<^verbatim>\<open>sizeof(struct s)\<close>, fixed by the \<^verbatim>\<open>static_assert\<close>.\<close>

definition NODE_SIZE :: nat where
  "NODE_SIZE = 64"

text \<open>
  The sequential branch of \<^verbatim>\<open>prepare\<close>:
  \<^verbatim>\<open>for (i = 0; i < count - 1; i++) array[i].ptr = &array[i+1];\<close>
  The C loop compares signed integers, so for \<open>count = 0\<close> it does not run; on
  naturals the test is written \<open>i + 1 < count\<close>.
\<close>

function seq_loop :: "s list \<Rightarrow> nat \<Rightarrow> nat \<Rightarrow> fault + s list" where
  "seq_loop array count i =
     (if i + 1 < count then
        if i < length array
        then seq_loop (array[i := (array ! i)\<lparr>ptr := Addr (i + 1)\<rparr>]) count (i + 1)
        else Inl OutOfBounds
      else Inr array)"
  by pat_completeness auto
termination
  by (relation "measure (\<lambda>(array, count, i). count - i)") auto

declare seq_loop.simps [simp del]

text \<open>\<^verbatim>\<open>array[count - 1].ptr = &array[0];\<close> after the loop.\<close>

definition prepare_sequential :: "s list \<Rightarrow> nat \<Rightarrow> fault + s list" where
  "prepare_sequential array count =
     (case seq_loop array count 0 of
        Inl e \<Rightarrow> Inl e
      | Inr a \<Rightarrow>
          if count = 0 \<or> length a < count then Inl OutOfBounds
          else Inr (a[count - 1 := (a ! (count - 1))\<lparr>ptr := Addr 0\<rparr>]))"

text \<open>
  \<^verbatim>\<open>memset(array, 0, size)\<close> clears \<open>size div 64\<close> whole nodes, pointer and padding.
  When \<open>size\<close> is no multiple of 64 it also clears the first \<open>size mod 64\<close> bytes of
  the next node; what that leaves there depends on the byte representation of
  pointers, which the parameter \<open>clr\<close> stands for.
\<close>

definition zero_node :: s where
  "zero_node = \<lparr>ptr = Null, dummy = replicate DUMMY_LEN 0\<rparr>"

definition memset0 :: "(nat \<Rightarrow> s \<Rightarrow> s) \<Rightarrow> s list \<Rightarrow> nat \<Rightarrow> fault + s list" where
  "memset0 clr array n =
     (let full = n div NODE_SIZE; r = n mod NODE_SIZE in
      if length array * NODE_SIZE < n then Inl OutOfBounds
      else
        (let a = replicate full zero_node @ drop full array
         in Inr (if r = 0 then a else a[full := clr r (a ! full)])))"

text \<open>
  The linear scan
  \<^verbatim>\<open>for (j = ...; array[j].ptr != NULL; j = (j >= count) ? 0 : j+1);\<close>
  from the index \<open>j\<close>. It returns the index it stops at and, as a ghost value, the
  indices at which it read \<^verbatim>\<open>array[j].ptr\<close>, in order. The loop need not end, so the
  result is an option.
\<close>

partial_function (option) scan ::
  "s list \<Rightarrow> nat \<Rightarrow> nat \<Rightarrow> nat list \<Rightarrow> (fault + nat \<times> nat list) option" where
  "scan array count j probes =
     (if j < length array then
        if ptr (array ! j) \<noteq> Null
        then scan array count (if j \<ge> count then 0 else j + 1) (probes @ [j])
        else Some (Inr (j, probes @ [j]))
      else Some (Inl OutOfBounds))"

text \<open>
  The outer loop of the random branch, with \<^verbatim>\<open>p = &array[p]\<close>; the \<open>i\<close>-th call of
  \<^verbatim>\<open>rand()\<close> returns \<open>rnd i\<close>:
  \<^verbatim>\<open>for (i = 0; i < count - 1; i++) {
       p->ptr = (struct s*)1;
       for (j = rand() % count; ...);
       p = p->ptr = &array[j];
     }\<close>
\<close>

function rand_loop ::
  "(nat \<Rightarrow> nat) \<Rightarrow> s list \<Rightarrow> nat \<Rightarrow> nat \<Rightarrow> nat \<Rightarrow> nat list
     \<Rightarrow> (fault + s list \<times> nat \<times> nat list) option" where
  "rand_loop rnd array count i p probes =
     (if i + 1 < count then
        if p < length array then
          (let a = array[p := (array ! p)\<lparr>ptr := Occupied\<rparr>] in
           case scan a count (rnd i mod count) probes of
             None \<Rightarrow> None
           | Some (Inl e) \<Rightarrow> Some (Inl e)
           | Some (Inr (j, probes')) \<Rightarrow>
               rand_loop rnd (a[p := (a ! p)\<lparr>ptr := Addr j\<rparr>]) count (i + 1) j probes')
        else Some (Inl OutOfBounds)
      else Some (Inr (array, p, probes)))"
  by pat_completeness auto
termination
  by (relation "measure (\<lambda>(rnd, array, count, i, p, probes). count - i)") auto

declare rand_loop.simps [simp del]

text \<open>The random branch: \<^verbatim>\<open>memset\<close>, the loop from \<^verbatim>\<open>p = &array[0]\<close>, then \<^verbatim>\<open>p->ptr = &array[0]\<close>.\<close>

definition prepare_random ::
  "(nat \<Rightarrow> s \<Rightarrow> s) \<Rightarrow> (nat \<Rightarrow> nat) \<Rightarrow> s list \<Rightarrow> u32
     \<Rightarrow> (fault + s list \<times> nat list) option" where
  "prepare_random clr rnd array size' =
     (let count = unat size' div NODE_SIZE in
      case memset0 clr array (unat size') of
        Inl e \<Rightarrow> Some (Inl e)
      | Inr a0 \<Rightarrow>
          (case rand_loop rnd a0 count 0 0 [] of
             None \<Rightarrow> None
           | Some (Inl e) \<Rightarrow> Some (Inl e)
           | Some (Inr (a, p, probes)) \<Rightarrow>
               if p < length a
               then Some (Inr (a[p := (a ! p)\<lparr>ptr := Addr 0\<rparr>], probes))
               else Some (Inl OutOfBounds)))"

text \<open>
  \<^verbatim>\<open>prepare(array, size, sequential)\<close> with \<^verbatim>\<open>int count = size / sizeof(struct s)\<close>.
  The result is the arena and the ghost list of the indices the scans read.
\<close>

definition prepare ::
  "(nat \<Rightarrow> s \<Rightarrow> s) \<Rightarrow> (nat \<Rightarrow> nat) \<Rightarrow> s list \<Rightarrow> u32 \<Rightarrow> bool
     \<Rightarrow> (fault + s list \<times> nat list) option" where
  "prepare clr rnd array size' sequential =
     (if sequential then
        (case prepare_sequential array (unat size' div NODE_SIZE) of
           Inl e \<Rightarrow> Some (Inl e)
         | Inr a \<Rightarrow> Some (Inr (a, [])))
      else prepare_random clr rnd array size')"

subsection \<open>Configuration and timing source\<close>

text \<open>\<^verbatim>\<open>struct cfg\<close>; the CPU set is the set of the CPU numbers it holds.\<close>

record cfg =
  sequential :: bool
  size' :: u32
  num_threads :: u32
  read_count :: u32
  cpu_set :: "nat set"
  write' :: bool
  ofs :: u32
  use_cycles :: bool

text \<open>
  The two compilations of the file: with \<^verbatim>\<open>__aarch64__\<close> defined, and without.
  \<^verbatim>\<open>ccntr_init\<close> enables the counter in the first and is empty in the second; it fails
  in neither and changes nothing of what is modelled here.
\<close>

datatype arch = AArch64 | OtherArch

text \<open>
  What the machine would answer at the moment of a call of \<^verbatim>\<open>get_time\<close>: the
  \<^verbatim>\<open>struct timespec\<close> that \<^verbatim>\<open>clock_gettime(CLOCK_MONOTONIC, &t)\<close> stores, and the value
  of the register \<^verbatim>\<open>PMCCNTR_EL0\<close>.
\<close>

record hw =
  tv_sec :: int
  tv_nsec :: int
  pmccntr :: u64

definition ccntr_get :: "arch \<Rightarrow> hw \<Rightarrow> u64" where
  "ccntr_get a h = (case a of AArch64 \<Rightarrow> pmccntr h | OtherArch \<Rightarrow> 0)"

definition get_time :: "arch \<Rightarrow> cfg \<Rightarrow> hw \<Rightarrow> u64" where
  "get_time a c h =
     (if use_cycles c = False
      then word_of_int (tv_sec h) * 1000000000 + word_of_int (tv_nsec h)
      else ccntr_get a h)"

subsection \<open>Worker\<close>

text \<open>
  One worker, taken alone (the barrier only delays it). \<open>arrays\<close> is the global
  \<^verbatim>\<open>array[MAX_CPUS]\<close> of arenas, \<open>affinity_ok\<close> tells whether
  \<^verbatim>\<open>pthread_setaffinity_np\<close> returned 0, \<open>h_tic\<close> and \<open>h_tac\<close> are the machine's
  answers at the two calls of \<^verbatim>\<open>get_time\<close>. The C expression
  \<^verbatim>\<open>(double)(tac - tic) / me->cfg->read_count\<close> converts both operands to
  \<^verbatim>\<open>double\<close> and divides in floating point; the parameter \<open>fdiv\<close> stands for that
  operation on the 64 bit difference and the 32 bit count.
\<close>

record 'd outcome =
  result :: 'd
  final :: walk
  batches :: nat

definition benchmark_thread ::
  "arch \<Rightarrow> (u64 \<Rightarrow> u32 \<Rightarrow> 'd) \<Rightarrow> (nat \<Rightarrow> s \<Rightarrow> s) \<Rightarrow> (nat \<Rightarrow> nat) \<Rightarrow> bool \<Rightarrow> hw \<Rightarrow> hw
     \<Rightarrow> s list list \<Rightarrow> cfg \<Rightarrow> nat \<Rightarrow> (fault + 'd outcome) option" where
  "benchmark_thread a fdiv clr rnd affinity_ok h_tic h_tac arrays c cpu =
     (if affinity_ok then
        if cpu < length arrays then
          (case prepare clr rnd (arrays ! cpu) (size' c) (sequential c) of
             None \<Rightarrow> None
           | Some (Inl e) \<Rightarrow> Some (Inl e)
           | Some (Inr (prepared, probes)) \<Rightarrow>
               (let tic = get_time a c h_tic in
                case (if write' c = False
                      then do_read prepared (read_count c)
                      else do_write prepared (read_count c) (ofs c)) of
                  Inl e \<Rightarrow> Some (Inl e)
                | Inr (w, b) \<Rightarrow>
                    (let tac = get_time a c h_tac
                     in Some (Inr \<lparr>result = fdiv (tac - tic) (read_count c),
                                   final = w, batches = b\<rparr>))))
        else Some (Inl OutOfBounds)
      else Some (Inl (Exit 1)))"

subsection \<open>Orchestrator\<close>

definition MAX_CPUS :: nat where
  "MAX_CPUS = 8"

text \<open>
  The inner loop of \<^verbatim>\<open>run_benchmark\<close>: the lowest \<open>j < MAX_CPUS\<close> in the set, if any.
\<close>

definition pick_cpu :: "nat set \<Rightarrow> nat option" where
  "pick_cpu cpus = find (\<lambda>j. j \<in> cpus) [0..<MAX_CPUS]"

text \<open>
  The creation loop of \<^verbatim>\<open>run_benchmark\<close> over \<^verbatim>\<open>struct benchmark_thread thread[MAX_CPUS]\<close>.
  It returns, in creation order, the slot \<open>i\<close> of \<^verbatim>\<open>thread\<close> each worker was given
  and its CPU; the CPU is \<open>None\<close> when the loop over \<open>j\<close> found no CPU and left
  \<^verbatim>\<open>thread[i].cpu\<close> uninitialised.
\<close>

function spawn ::
  "cfg \<Rightarrow> nat \<Rightarrow> nat set \<Rightarrow> (nat \<times> nat option) list \<Rightarrow> fault + (nat \<times> nat option) list" where
  "spawn c i cpus created =
     (if i < unat (num_threads c) then
        if i < MAX_CPUS then
          (if cpus = {} then spawn c (i + 1) cpus (created @ [(i, Some i)])
           else
             (case pick_cpu cpus of
                Some j \<Rightarrow> spawn c (i + 1) (cpus - {j}) (created @ [(i, Some j)])
              | None \<Rightarrow> spawn c (i + 1) cpus (created @ [(i, None)])))
        else Inl OutOfBounds
      else Inr created)"
  by pat_completeness auto
termination
  by (relation "measure (\<lambda>(c, i, cpus, created). unat (num_threads c) - i)") auto

declare spawn.simps [simp del]

text \<open>
  \<^verbatim>\<open>run_benchmark\<close>: the barrier, the creation loop, the joins, the end of the barrier.
  \<^verbatim>\<open>pthread_barrier_init\<close> refuses the count 0 and its result is not checked; the loops
  then do nothing, and \<^verbatim>\<open>pthread_barrier_destroy\<close> is called on a barrier that was never
  initialised, which POSIX leaves undefined. For any other count the barrier is
  initialised and, the workers having passed it and been joined, destroyed.
\<close>

definition run_benchmark :: "cfg \<Rightarrow> fault + (nat \<times> nat option) list" where
  "run_benchmark c =
     (case spawn c 0 (cpu_set c) [] of
        Inl e \<Rightarrow> Inl e
      | Inr created \<Rightarrow> if num_threads c = 0 then Inl BadBarrier else Inr created)"

subsection \<open>The command line\<close>

text \<open>
  The options \<^verbatim>\<open>getopt\<close> returns, each with the value of \<^verbatim>\<open>atol(optarg)\<close> when it
  takes an argument; \<open>Opt_unknown\<close> is \<^verbatim>\<open>'?'\<close>.
\<close>

datatype opt =
    Opt_c int | Opt_C int | Opt_h | Opt_o int | Opt_r | Opt_s int | Opt_t int
  | Opt_w | Opt_y | Opt_unknown

text \<open>\<^verbatim>\<open>sizeof(array[0])\<close>: an arena of \<^verbatim>\<open>64*0x100000/sizeof(struct s)\<close> nodes.\<close>

definition ARENA_NODES :: nat where
  "ARENA_NODES = 64 * 1048576 div NODE_SIZE"

definition ARENA_BYTES :: nat where
  "ARENA_BYTES = ARENA_NODES * NODE_SIZE"

text \<open>The initial \<^verbatim>\<open>struct cfg\<close> of \<^verbatim>\<open>main\<close>, after \<^verbatim>\<open>CPU_ZERO\<close>.\<close>

definition dflt :: cfg where
  "dflt = \<lparr>sequential = True, size' = 0, num_threads = 1, read_count = 0x2000000,
           cpu_set = {}, write' = False, ofs = 0, use_cycles = False\<rparr>"

text \<open>
  One round of the \<^verbatim>\<open>switch\<close>. A \<^verbatim>\<open>long\<close> stored in an \<^verbatim>\<open>unsigned\<close> field is reduced
  modulo \<open>2^32\<close>. \<^verbatim>\<open>CPU_SET\<close> ignores a CPU number outside \<open>0..1023\<close>.
\<close>

fun handle_opt :: "cfg \<Rightarrow> opt \<Rightarrow> fault + cfg" where
  "handle_opt c (Opt_c n) = Inr (c\<lparr>read_count := word_of_int n\<rparr>)"
| "handle_opt c (Opt_o n) = Inr (c\<lparr>ofs := word_of_int n\<rparr>)"
| "handle_opt c Opt_r = Inr (c\<lparr>sequential := False\<rparr>)"
| "handle_opt c (Opt_s n) =
     (let c' = c\<lparr>size' := word_of_int n\<rparr>
      in if unat (size' c') > ARENA_BYTES then Inl (Exit 1) else Inr c')"
| "handle_opt c (Opt_t n) = Inr (c\<lparr>num_threads := word_of_int n\<rparr>)"
| "handle_opt c (Opt_C n) =
     Inr (if 0 \<le> n \<and> n < 1024 then c\<lparr>cpu_set := insert (nat n) (cpu_set c)\<rparr> else c)"
| "handle_opt c Opt_w = Inr (c\<lparr>write' := True\<rparr>)"
| "handle_opt c Opt_y = Inr (c\<lparr>use_cycles := True\<rparr>)"
| "handle_opt c Opt_h = Inl (Exit 0)"
| "handle_opt c Opt_unknown = Inl (Exit 1)"

fun getopt_loop :: "cfg \<Rightarrow> opt list \<Rightarrow> fault + cfg" where
  "getopt_loop c [] = Inr c"
| "getopt_loop c (x # xs) =
     (case handle_opt c x of Inl e \<Rightarrow> Inl e | Inr c' \<Rightarrow> getopt_loop c' xs)"

text \<open>
  The sizes of the sweep: \<^verbatim>\<open>1 << order\<close> and one and a half times that, for
  \<open>order\<close> from 10 to 24.
\<close>

definition sweep_sizes :: "u32 list" where
  "sweep_sizes =
     concat (map (\<lambda>order. [push_bit order 1, push_bit order 1 + push_bit order 1 div 2])
       [10..<25])"

text \<open>
  \<^verbatim>\<open>main\<close> up to the calls of \<^verbatim>\<open>run_benchmark\<close>: the result is the list of the
  configurations it runs, in order, or how the process ended before.
\<close>

definition main :: "opt list \<Rightarrow> fault + cfg list" where
  "main opts =
     (case getopt_loop dflt opts of
        Inl e \<Rightarrow> Inl e
      | Inr c \<Rightarrow>
          if write' c \<and> DUMMY_LEN \<le> unat (ofs c) then Inl AssertFailed
          else if size' c \<noteq> 0 then Inr [c]
          else Inr (map (\<lambda>sz. c\<lparr>size' := sz\<rparr>) sweep_sizes))"

section \<open>Specification vocabulary\<close>

text \<open>
  \<open>is_cycle a cs\<close>: in the arena \<open>a\<close> the nodes \<open>cs\<close>, pairwise different and starting
  with node 0, are linked in this order by their \<^verbatim>\<open>ptr\<close> fields, the last one back to the
  first. A prepared arena of \<open>count\<close> nodes is meant to satisfy it for a list \<open>cs\<close> of
  length \<open>count\<close>.
\<close>

definition is_cycle :: "s list \<Rightarrow> nat list \<Rightarrow> bool" where
  "is_cycle a cs \<longleftrightarrow>
     cs \<noteq> [] \<and> hd cs = 0 \<and> distinct cs \<and>
     list_all (\<lambda>i. cs ! i < length a \<and> ptr (a ! (cs ! i)) = Addr (cs ! (Suc i mod length cs)))
       [0..<length cs]"

text \<open>
  The states of a traversal of such a cycle after \<open>m\<close> steps. \<open>hits cs m x\<close> counts the
  visits of node \<open>x\<close> during the first \<open>m\<close> steps, and \<open>bumped off c nd\<close> is the node
  \<open>nd\<close> after \<open>c\<close> executions of \<^verbatim>\<open>dummy[off]++\<close>.
\<close>

definition hits :: "nat list \<Rightarrow> nat \<Rightarrow> nat \<Rightarrow> nat" where
  "hits cs m x = count_list (map (\<lambda>t. cs ! (t mod length cs)) [0..<m]) x"

definition bumped :: "nat \<Rightarrow> nat \<Rightarrow> s \<Rightarrow> s" where
  "bumped off c nd = nd\<lparr>dummy := (dummy nd)[off := dummy nd ! off + of_nat c]\<rparr>"

definition read_inv :: "s list \<Rightarrow> nat list \<Rightarrow> nat \<Rightarrow> walk" where
  "read_inv a cs m = \<lparr>arr = a, cur = Addr (cs ! (m mod length cs)), steps = m\<rparr>"

definition write_inv :: "s list \<Rightarrow> nat list \<Rightarrow> nat \<Rightarrow> nat \<Rightarrow> walk" where
  "write_inv a cs off m =
     \<lparr>arr = map (\<lambda>x. bumped off (hits cs m x) (a ! x)) [0..<length a],
      cur = Addr (cs ! (m mod length cs)), steps = m\<rparr>"

text \<open>
  The indices below \<open>count\<close> whose \<^verbatim>\<open>ptr\<close> is not \<^verbatim>\<open>NULL\<close>: the nodes the random
  generation has taken so far.
\<close>

definition marked :: "s list \<Rightarrow> nat \<Rightarrow> nat set" where
  "marked array count = {k. k < count \<and> ptr (array ! k) \<noteq> Null}"

subsection \<open>Concrete inputs\<close>

text \<open>
  Arenas of one, two and three nodes, and an arena whose first four nodes are
  zero-initialised, as every node is when the process starts, followed by any nodes.
\<close>

definition one_node :: "s list" where
  "one_node = [\<lparr>ptr = Addr 0, dummy = replicate 14 0\<rparr>]"

definition two_nodes :: "s list" where
  "two_nodes = [\<lparr>ptr = Addr 1, dummy = replicate 14 0\<rparr>,
                \<lparr>ptr = Addr 0, dummy = replicate 14 7\<rparr>]"

definition three_nodes :: "s list" where
  "three_nodes = [\<lparr>ptr = Null, dummy = replicate 14 0\<rparr>,
                  \<lparr>ptr = Null, dummy = replicate 14 0\<rparr>,
                  \<lparr>ptr = Null, dummy = replicate 14 0\<rparr>]"

definition fresh :: "s list \<Rightarrow> s list" where
  "fresh rest = zero_node # zero_node # zero_node # zero_node # rest"

text \<open>
  A run of one worker: 192 bytes (three nodes), sequential, 64 requested operations, with
  the clock read at 1.000000005 s and at 2 s, and \<^verbatim>\<open>pthread_setaffinity_np\<close> succeeding.
\<close>

definition demo_cfg :: cfg where
  "demo_cfg = dflt\<lparr>size' := 192, read_count := 64\<rparr>"

definition demo_tic :: hw where
  "demo_tic = \<lparr>tv_sec = 1, tv_nsec = 5, pmccntr = 0\<rparr>"

definition demo_tac :: hw where
  "demo_tac = \<lparr>tv_sec = 2, tv_nsec = 0, pmccntr = 0\<rparr>"

definition demo_affinity :: bool where
  "demo_affinity = True"

section \<open>The loops\<close>

lemma iter_add:
  "iter (m + n) f x = (case iter m f x of Inl e \<Rightarrow> Inl e | Inr y \<Rightarrow> iter n f y)"
  by (induction m arbitrary: x) (auto split: sum.splits)

lemma iter_mult: "iter m (iter k f) x = iter (m * k) f x"
proof (induction m arbitrary: x)
  case 0
  show ?case by simp
next
  case (Suc m)
  have "iter (Suc m * k) f x = iter (k + m * k) f x" by simp
  also have "\<dots> = (case iter k f x of Inl e \<Rightarrow> Inl e | Inr y \<Rightarrow> iter (m * k) f y)"
    by (rule iter_add)
  finally show ?case using Suc.IH by (simp split: sum.splits)
qed

lemma iter_Suc_end:
  "iter (Suc m) f x = (case iter m f x of Inl e \<Rightarrow> Inl e | Inr y \<Rightarrow> f y)"
proof -
  have "iter (m + 1) f x = (case iter m f x of Inl e \<Rightarrow> Inl e | Inr y \<Rightarrow> iter 1 f y)"
    by (rule iter_add)
  then show ?thesis by (simp split: sum.splits)
qed

text \<open>
  The loop \<^verbatim>\<open>while (--i)\<close> runs its body \<open>unat (i - 1)\<close> times: once less than the
  initial value, and \<open>2^32 - 1\<close> times from 0.
\<close>

lemma while_predec_iter:
  "while_predec i body st n =
     (case iter (unat (i - 1)) body st of
        Inl e \<Rightarrow> Inl e
      | Inr st' \<Rightarrow> Inr (st', n + unat (i - 1)))"
proof (induction k \<equiv> "unat (i - 1)" arbitrary: i st n)
  case 0
  then have "i - 1 = 0" by (simp add: unat_eq_0)
  then show ?case by (simp add: while_predec.simps)
next
  case (Suc k)
  then have nz: "i - 1 \<noteq> 0" by auto
  have "unat (i - 1 - 1) = unat (i - 1) - 1"
    using nz by (rule unat_minus_one)
  with Suc.hyps(2) have k: "k = unat (i - 1 - 1)"
    by linarith
  have u: "unat (i - 1) = Suc (unat (i - 1 - 1))"
    using Suc.hyps(2) k by (simp only:)
  show ?case
  proof (cases "body st")
    case (Inl e)
    then show ?thesis using nz u
      by (subst while_predec.simps) (simp add: Let_def)
  next
    case (Inr st')
    have "while_predec i body st n = while_predec (i - 1) body st' (n + 1)"
      using nz Inr by (subst while_predec.simps) (simp add: Let_def)
    also have "\<dots> = (case iter (unat (i - 1 - 1)) body st' of
        Inl e \<Rightarrow> Inl e
      | Inr st'' \<Rightarrow> Inr (st'', n + 1 + unat (i - 1 - 1)))"
      using Suc.hyps(1) [OF k] .
    finally show ?thesis using Inr u by (simp split: sum.splits)
  qed
qed

lemma batches_large:
  assumes "32 \<le> (n :: u32)"
  shows "unat (n div 32 - 1) = unat n div 32 - 1"
proof -
  have d: "unat (n div 32) = unat n div 32"
    by (simp add: unat_div)
  from assms have "32 \<le> unat n"
    by (simp add: word_le_nat_alt)
  then have "unat (n div 32) \<noteq> 0"
    unfolding d by simp
  then have "n div 32 \<noteq> 0"
    by (simp add: unat_eq_0)
  then have "unat (n div 32 - 1) = unat (n div 32) - 1"
    by (rule unat_minus_one)
  then show ?thesis
    by (simp only: d)
qed

lemma batches_small:
  assumes "(n :: u32) < 32"
  shows "unat (n div 32 - 1) = 4294967295"
proof -
  from assms have "unat n < 32"
    by (simp add: word_less_nat_alt)
  then have "unat (n div 32) = 0"
    by (simp add: unat_div)
  then have "n div 32 = 0"
    by (simp add: unat_eq_0)
  then show ?thesis
    by (simp add: unsigned_minus_1_eq_mask mask_eq_exp_minus_1)
qed

lemma read_step_steps: "read_step s = Inr w \<Longrightarrow> steps w = steps s + 1"
  by (auto simp: read_step_def split: pointer.splits if_splits)

lemma write_step_steps: "write_step wofs s = Inr w \<Longrightarrow> steps w = steps s + 1"
  by (auto simp: write_step_def Let_def split: pointer.splits if_splits)

lemma iter_steps:
  assumes "\<And>s w. f s = Inr w \<Longrightarrow> steps w = steps s + 1"
  shows "iter m f s = Inr w \<Longrightarrow> steps w = steps s + m"
proof (induction m arbitrary: s)
  case 0
  then show ?case by simp
next
  case (Suc m)
  then obtain y where y: "f s = Inr y" and r: "iter m f y = Inr w"
    by (auto split: sum.splits)
  from Suc.IH [OF r] assms [OF y] show ?case by simp
qed

lemma traversal_counts:
  assumes "\<And>s w. f s = Inr w \<Longrightarrow> steps w = steps s + 1"
    and "while_predec (n div 32) (iter 32 f) (start a) 0 = Inr (w, b)"
  shows "b = unat (n div 32 - 1) \<and> steps w = 32 * b"
proof -
  from assms(2) have i: "iter (unat (n div 32 - 1) * 32) f (start a) = Inr w"
    and b: "b = unat (n div 32 - 1)"
    by (auto simp: while_predec_iter iter_mult split: sum.splits)
  from iter_steps [OF assms(1) i] b show ?thesis
    by (simp add: start_def)
qed

lemma steps_never_requested: "32 * unat (n div 32 - 1) \<noteq> unat (n :: u32)"
proof (cases "32 \<le> n")
  case True
  then have "32 \<le> unat n"
    by (simp add: word_le_nat_alt)
  then have "32 * (unat n div 32 - 1) < unat n"
    by presburger
  then show ?thesis
    by (simp add: batches_large [OF True])
next
  case False
  then have s: "n < 32" by simp
  then have "unat n < 32"
    by (simp add: word_less_nat_alt)
  then show ?thesis
    by (simp add: batches_small [OF s])
qed

section \<open>Traversal of a cycle\<close>

lemma is_cycle_iff:
  "is_cycle a cs \<longleftrightarrow>
     cs \<noteq> [] \<and> hd cs = 0 \<and> distinct cs \<and>
     (\<forall>i<length cs. cs ! i < length a \<and>
        ptr (a ! (cs ! i)) = Addr (cs ! (Suc i mod length cs)))"
  by (auto simp: is_cycle_def list_all_iff)

lemma is_cycle_one_node: "is_cycle one_node [0]"
  by (simp add: is_cycle_def one_node_def)

lemma is_cycle_two_nodes: "is_cycle two_nodes [0, 1]"
  by (simp add: is_cycle_def two_nodes_def)

lemma bumped_step:
  "(bumped off c nd)\<lparr>dummy := (dummy (bumped off c nd))[off := dummy (bumped off c nd) ! off + 1]\<rparr>
     = bumped off (Suc c) nd"
  by (cases "off < length (dummy nd)") (simp_all add: bumped_def ac_simps list_update_beyond)

lemma bumped_0: "bumped off 0 nd = nd"
  by (simp add: bumped_def)

lemma ptr_bumped: "ptr (bumped off c nd) = ptr nd"
  by (simp add: bumped_def)

lemma dummy_bumped:
  "dummy (bumped off c nd) = (dummy nd)[off := dummy nd ! off + of_nat c]"
  by (simp add: bumped_def)

lemma read_step_cycle:
  assumes "is_cycle a cs"
  shows "read_step (read_inv a cs m) = Inr (read_inv a cs (Suc m))"
proof -
  from assms have n: "0 < length cs" by (simp add: is_cycle_iff)
  then have r: "m mod length cs < length cs" by simp
  with assms have "cs ! (m mod length cs) < length a"
    and "ptr (a ! (cs ! (m mod length cs))) = Addr (cs ! (Suc (m mod length cs) mod length cs))"
    by (simp_all add: is_cycle_iff)
  then show ?thesis
    by (simp add: read_step_def read_inv_def mod_Suc_eq)
qed

lemma iter_read_cycle:
  assumes "is_cycle a cs"
  shows "iter m read_step (start a) = Inr (read_inv a cs m)"
proof (induction m)
  case 0
  from assms have "cs ! 0 = 0" by (cases cs) (simp_all add: is_cycle_iff)
  then show ?case by (simp add: start_def read_inv_def)
next
  case (Suc m)
  then show ?case by (simp add: iter_Suc_end read_step_cycle [OF assms] del: iter.simps)
qed

lemma hits_0: "hits cs 0 x = 0"
  by (simp add: hits_def)

lemma hits_Suc:
  "hits cs (Suc m) x = hits cs m x + (if cs ! (m mod length cs) = x then 1 else 0)"
  by (simp add: hits_def)

lemma count_list_distinct:
  "distinct xs \<Longrightarrow> count_list xs x = (if x \<in> set xs then 1 else 0)"
  by (induction xs) auto

lemma period_map:
  assumes "cs \<noteq> []"
  shows "map (\<lambda>t. cs ! (t mod length cs)) [k * length cs..<k * length cs + length cs] = cs"
  using assms by (intro nth_equalityI) simp_all

lemma hits_pass:
  assumes "cs \<noteq> []" and "distinct cs"
  shows "hits cs (k * length cs) x = (if x \<in> set cs then k else 0)"
proof (induction k)
  case 0
  show ?case by (simp add: hits_0)
next
  case (Suc k)
  have "[0..<Suc k * length cs]
      = [0..<k * length cs] @ [k * length cs..<k * length cs + length cs]"
    using upt_add_eq_append [of 0 "k * length cs" "length cs"] by (simp add: add.commute)
  then have "hits cs (Suc k * length cs) x = hits cs (k * length cs) x + count_list cs x"
    unfolding hits_def by (simp only: map_append count_list_append period_map [OF assms(1)])
  with Suc assms(2) show ?case
    by (simp add: count_list_distinct)
qed

lemma write_step_cycle:
  assumes "is_cycle a cs" and "unat wofs < DUMMY_LEN"
  shows "write_step wofs (write_inv a cs (unat wofs) m) = Inr (write_inv a cs (unat wofs) (Suc m))"
proof -
  define r where "r = m mod length cs"
  define k where "k = cs ! r"
  from assms(1) have "0 < length cs" by (simp add: is_cycle_iff)
  then have r: "r < length cs" by (simp add: r_def)
  with assms(1) have k: "k < length a"
    and nxt: "ptr (a ! k) = Addr (cs ! (Suc r mod length cs))"
    by (simp_all add: is_cycle_iff k_def)
  let ?w = "write_inv a cs (unat wofs) m"
  have cur: "cur ?w = Addr k" and len: "length (arr ?w) = length a"
    and nd: "arr ?w ! k = bumped (unat wofs) (hits cs m k) (a ! k)"
    using k by (simp_all add: write_inv_def r_def k_def)
  have upd: "(arr ?w)[k := bumped (unat wofs) (Suc (hits cs m k)) (a ! k)]
      = arr (write_inv a cs (unat wofs) (Suc m))"
    using k by (intro nth_equalityI)
      (auto simp: write_inv_def hits_Suc nth_list_update r_def k_def)
  have "write_step wofs ?w =
    Inr (?w\<lparr>arr := (arr ?w)[k := bumped (unat wofs) (Suc (hits cs m k)) (a ! k)],
         cur := Addr (cs ! (Suc r mod length cs)), steps := steps ?w + 1\<rparr>)"
    using assms(2) k nxt
    by (simp add: write_step_def cur len nd Let_def bumped_step ptr_bumped)
  also have "\<dots> = Inr (write_inv a cs (unat wofs) (Suc m))"
    unfolding upd by (simp add: write_inv_def r_def mod_Suc_eq)
  finally show ?thesis .
qed

lemma iter_write_cycle:
  assumes "is_cycle a cs" and "unat wofs < DUMMY_LEN"
  shows "iter m (write_step wofs) (start a) = Inr (write_inv a cs (unat wofs) m)"
proof (induction m)
  case 0
  from assms have "cs ! 0 = 0" by (cases cs) (simp_all add: is_cycle_iff)
  then show ?case by (simp add: start_def write_inv_def hits_0 bumped_0 map_nth)
next
  case (Suc m)
  then show ?case by (simp add: iter_Suc_end write_step_cycle [OF assms] del: iter.simps)
qed

lemma map_ptr_write_inv: "map ptr (arr (write_inv a cs off m)) = map ptr a"
  by (intro nth_equalityI) (simp_all add: write_inv_def ptr_bumped)

lemma do_read_cycle:
  assumes "is_cycle a cs"
  shows "do_read a reads =
    Inr (read_inv a cs (unat (reads div 32 - 1) * 32), unat (reads div 32 - 1))"
  by (simp add: do_read_def Let_def while_predec_iter iter_mult iter_read_cycle [OF assms])

lemma do_write_cycle:
  assumes "is_cycle a cs" and "unat wofs < DUMMY_LEN"
  shows "do_write a accesses wofs =
    Inr (write_inv a cs (unat wofs) (unat (accesses div 32 - 1) * 32),
         unat (accesses div 32 - 1))"
  by (simp add: do_write_def Let_def while_predec_iter iter_mult iter_write_cycle [OF assms])

lemma hits_outside: "x \<notin> set cs \<Longrightarrow> cs \<noteq> [] \<Longrightarrow> hits cs m x = 0"
proof (induction m)
  case 0
  show ?case by (simp add: hits_0)
next
  case (Suc m)
  from Suc.prems have "cs ! (m mod length cs) \<noteq> x"
    by (metis length_greater_0_conv mod_less_divisor nth_mem)
  with Suc show ?case by (simp add: hits_Suc)
qed

lemma hits_position:
  assumes "distinct cs" and "i < length cs"
  shows "hits cs m (cs ! i) = m div length cs + (if i < m mod length cs then 1 else 0)"
proof (induction m)
  case 0
  show ?case by (simp add: hits_0)
next
  case (Suc m)
  from assms(2) have "0 < length cs" by (cases cs) simp_all
  then have r: "m mod length cs < length cs" by simp
  have e: "cs ! (m mod length cs) = cs ! i \<longleftrightarrow> m mod length cs = i"
    using assms r by (simp add: nth_eq_iff_index_eq)
  show ?case
    using Suc assms(2) r by (auto simp: hits_Suc e div_Suc mod_Suc split: if_splits)
qed

lemma do_write_final:
  assumes "is_cycle a cs" and "unat wofs < DUMMY_LEN"
  shows "\<exists>w. do_write a accesses wofs = Inr (w, unat (accesses div 32 - 1))
      \<and> iter (unat (accesses div 32 - 1) * 32) (write_step wofs) (start a) = Inr w
      \<and> steps w = unat (accesses div 32 - 1) * 32
      \<and> cur w = Addr (cs ! (unat (accesses div 32 - 1) * 32 mod length cs))
      \<and> length (arr w) = length a
      \<and> map ptr (arr w) = map ptr a
      \<and> (\<forall>i<length cs. dummy (arr w ! (cs ! i)) =
            (dummy (a ! (cs ! i)))[unat wofs := dummy (a ! (cs ! i)) ! unat wofs
               + of_nat (unat (accesses div 32 - 1) * 32 div length cs
                   + (if i < unat (accesses div 32 - 1) * 32 mod length cs then 1 else 0))])
      \<and> (\<forall>x<length a. x \<notin> set cs \<longrightarrow> arr w ! x = a ! x)"
proof -
  define m where "m = unat (accesses div 32 - 1) * 32"
  let ?w = "write_inv a cs (unat wofs) m"
  from assms(1) have ne: "cs \<noteq> []" and d: "distinct cs"
    and inb: "\<forall>i<length cs. cs ! i < length a"
    by (simp_all add: is_cycle_iff)
  have "do_write a accesses wofs = Inr (?w, unat (accesses div 32 - 1))"
    unfolding m_def by (rule do_write_cycle [OF assms])
  moreover have "iter m (write_step wofs) (start a) = Inr ?w"
    by (rule iter_write_cycle [OF assms])
  moreover have "steps ?w = m" and "cur ?w = Addr (cs ! (m mod length cs))"
    and "length (arr ?w) = length a"
    by (simp_all add: write_inv_def)
  moreover have "map ptr (arr ?w) = map ptr a"
    by (rule map_ptr_write_inv)
  moreover have "\<forall>i<length cs. dummy (arr ?w ! (cs ! i)) =
            (dummy (a ! (cs ! i)))[unat wofs := dummy (a ! (cs ! i)) ! unat wofs
               + of_nat (m div length cs + (if i < m mod length cs then 1 else 0))]"
    using inb by (simp add: write_inv_def dummy_bumped hits_position [OF d])
  moreover have "\<forall>x<length a. x \<notin> set cs \<longrightarrow> arr ?w ! x = a ! x"
    using ne by (simp add: write_inv_def hits_outside bumped_0)
  ultimately show ?thesis
    unfolding m_def by blast
qed

lemma passes_state:
  assumes "is_cycle a cs" and "unat wofs < DUMMY_LEN"
  shows "\<exists>w. iter (k * length cs) (write_step wofs) (start a) = Inr w
          \<and> cur w = Addr 0 \<and> length (arr w) = length a
          \<and> (\<forall>x<length a. dummy (arr w ! x) =
                (if x \<in> set cs
                 then (dummy (a ! x))[unat wofs := dummy (a ! x) ! unat wofs + of_nat k]
                 else dummy (a ! x)))"
proof -
  from assms(1) have ne: "cs \<noteq> []" and d: "distinct cs" and z: "cs ! 0 = 0"
    by (cases cs; simp add: is_cycle_iff)+
  let ?w = "write_inv a cs (unat wofs) (k * length cs)"
  have "cur ?w = Addr 0"
    using z by (simp add: write_inv_def)
  moreover have "length (arr ?w) = length a"
    by (simp add: write_inv_def)
  moreover have "\<forall>x<length a. dummy (arr ?w ! x) =
                (if x \<in> set cs
                 then (dummy (a ! x))[unat wofs := dummy (a ! x) ! unat wofs + of_nat k]
                 else dummy (a ! x))"
    by (simp add: write_inv_def hits_pass [OF ne d] dummy_bumped)
  ultimately show ?thesis
    by (simp add: iter_write_cycle [OF assms])
qed

section \<open>Cycle generation\<close>

subsection \<open>Sequential mode\<close>

lemma seq_loop_links:
  "count \<le> length array \<Longrightarrow>
   \<exists>a. seq_loop array count i = Inr a \<and> length a = length array \<and>
     (\<forall>k<length array. a ! k =
        (if i \<le> k \<and> k + 1 < count then (array ! k)\<lparr>ptr := Addr (k + 1)\<rparr> else array ! k))"
proof (induction array count i rule: seq_loop.induct)
  case (1 array count i)
  show ?case
  proof (cases "i + 1 < count")
    case False
    then show ?thesis
      by (subst seq_loop.simps) auto
  next
    case True
    with "1.prems" have i: "i < length array" by simp
    let ?b = "array[i := (array ! i)\<lparr>ptr := Addr (i + 1)\<rparr>]"
    from "1.prems" have "count \<le> length ?b" by simp
    from "1.IH" [OF True i this] obtain a where
      a: "seq_loop ?b count (i + 1) = Inr a" "length a = length array"
      and nth: "\<forall>k<length array. a ! k =
        (if i + 1 \<le> k \<and> k + 1 < count then (?b ! k)\<lparr>ptr := Addr (k + 1)\<rparr> else ?b ! k)"
      by auto
    have "seq_loop array count i = Inr a"
      using True i a(1) by (subst seq_loop.simps) simp
    moreover have "\<forall>k<length array. a ! k =
        (if i \<le> k \<and> k + 1 < count then (array ! k)\<lparr>ptr := Addr (k + 1)\<rparr> else array ! k)"
      using nth True i by (auto simp: nth_list_update)
    ultimately show ?thesis
      using a(2) by blast
  qed
qed

lemma prepare_sequential_shape:
  assumes "1 \<le> count" and "count \<le> length array"
  shows "\<exists>a. prepare_sequential array count = Inr a \<and> length a = length array \<and>
     (\<forall>k<length array. a ! k =
        (if k + 1 < count then (array ! k)\<lparr>ptr := Addr (k + 1)\<rparr>
         else if k + 1 = count then (array ! k)\<lparr>ptr := Addr 0\<rparr>
         else array ! k))"
proof -
  from seq_loop_links [OF assms(2), of 0] obtain b where
    b: "seq_loop array count 0 = Inr b" "length b = length array"
    and nth: "\<forall>k<length array. b ! k =
        (if k + 1 < count then (array ! k)\<lparr>ptr := Addr (k + 1)\<rparr> else array ! k)"
    by auto
  let ?a = "b[count - 1 := (b ! (count - 1))\<lparr>ptr := Addr 0\<rparr>]"
  have "prepare_sequential array count = Inr ?a"
    using b assms by (simp add: prepare_sequential_def)
  moreover have "\<forall>k<length array. ?a ! k =
        (if k + 1 < count then (array ! k)\<lparr>ptr := Addr (k + 1)\<rparr>
         else if k + 1 = count then (array ! k)\<lparr>ptr := Addr 0\<rparr>
         else array ! k)"
    using nth b assms by (auto simp: nth_list_update)
  ultimately show ?thesis
    using b(2) by auto
qed

lemma prepare_sequential_cycle:
  assumes "1 \<le> count" and "count \<le> length array"
  shows "\<exists>a. prepare_sequential array count = Inr a \<and> is_cycle a [0..<count]"
proof -
  from prepare_sequential_shape [OF assms] obtain a where
    a: "prepare_sequential array count = Inr a" "length a = length array"
    and nth: "\<forall>k<length array. a ! k =
        (if k + 1 < count then (array ! k)\<lparr>ptr := Addr (k + 1)\<rparr>
         else if k + 1 = count then (array ! k)\<lparr>ptr := Addr 0\<rparr>
         else array ! k)"
    by blast
  have "ptr (a ! i) = Addr ([0..<count] ! (Suc i mod count))" if "i < count" for i
  proof (cases "i + 1 < count")
    case True
    with nth assms show ?thesis by simp
  next
    case False
    with that have "i + 1 = count" by simp
    with nth assms that show ?thesis by auto
  qed
  moreover have "hd [0..<count] = 0"
    using assms(1) by (simp add: upt_conv_Cons)
  ultimately have "is_cycle a [0..<count]"
    using assms a(2) by (auto simp: is_cycle_iff)
  with a(1) show ?thesis by blast
qed

subsection \<open>Random mode: the generator returns\<close>

text \<open>
  When the outer loop enters round \<open>i\<close>, at most \<open>i\<close> of the first \<open>count\<close> nodes are
  taken; marking the current node leaves one of them free, so the scan finds a node (or
  leaves the arena) and the generator returns.
\<close>

lemma scan_stop:
  "j < length array \<Longrightarrow> ptr (array ! j) = Null \<Longrightarrow>
   scan array count j probes = Some (Inr (j, probes @ [j]))"
  by (subst scan.simps) simp

lemma scan_next:
  "j < length array \<Longrightarrow> ptr (array ! j) \<noteq> Null \<Longrightarrow>
   scan array count j probes = scan array count (if j \<ge> count then 0 else j + 1) (probes @ [j])"
  by (subst scan.simps) simp

lemma rand_loop_end:
  "\<not> i + 1 < count \<Longrightarrow> rand_loop rnd array count i p probes = Some (Inr (array, p, probes))"
  by (subst rand_loop.simps) simp

lemma rand_loop_next:
  "i + 1 < count \<Longrightarrow> p < length array \<Longrightarrow>
   scan (array[p := (array ! p)\<lparr>ptr := Occupied\<rparr>]) count (rnd i mod count) probes
     = Some (Inr (j, probes')) \<Longrightarrow>
   rand_loop rnd array count i p probes =
     rand_loop rnd (array[p := (array ! p)\<lparr>ptr := Addr j\<rparr>]) count (i + 1) j probes'"
  by (subst rand_loop.simps) (simp add: Let_def)

lemma scan_up_to_null:
  assumes "k < count" and "k < length array" and "ptr (array ! k) = Null"
  shows "j \<le> k \<Longrightarrow> scan array count j probes \<noteq> None"
proof (induction n \<equiv> "k - j" arbitrary: j probes)
  case 0
  then have "j = k" by simp
  with assms show ?case
    by (subst scan.simps) simp
next
  case (Suc n)
  then have j: "j < k" by simp
  show ?case
  proof (cases "ptr (array ! j) = Null")
    case True
    with j assms(2) show ?thesis
      by (subst scan.simps) simp
  next
    case False
    from Suc.hyps(2) have "n = k - (j + 1)" by simp
    moreover from j have "j + 1 \<le> k" by simp
    ultimately have "scan array count (j + 1) (probes @ [j]) \<noteq> None"
      by (rule Suc.hyps(1))
    with False j assms(1,2) show ?thesis
      by (subst scan.simps) simp
  qed
qed

lemma scan_returns:
  assumes "k < count" and "k < length array" and "ptr (array ! k) = Null"
  shows "scan array count j probes \<noteq> None"
proof (induction n \<equiv> "count - j" arbitrary: j probes)
  case 0
  then have c: "count \<le> j" by simp
  show ?case
  proof (cases "j < length array \<and> ptr (array ! j) \<noteq> Null")
    case True
    have "scan array count 0 (probes @ [j]) \<noteq> None"
      by (rule scan_up_to_null [OF assms]) simp
    with True c show ?thesis
      by (subst scan.simps) simp
  next
    case False
    then show ?thesis
      by (subst scan.simps) auto
  qed
next
  case (Suc n)
  then have c: "j < count" by simp
  show ?case
  proof (cases "j < length array \<and> ptr (array ! j) \<noteq> Null")
    case True
    from Suc.hyps(2) have "n = count - (j + 1)" by simp
    then have "scan array count (j + 1) (probes @ [j]) \<noteq> None"
      by (rule Suc.hyps(1))
    with True c show ?thesis
      by (subst scan.simps) simp
  next
    case False
    then show ?thesis
      by (subst scan.simps) auto
  qed
qed

lemma finite_marked: "finite (marked array count)"
  by (simp add: marked_def)

lemma marked_update:
  "p < length array \<Longrightarrow>
   card (marked (array[p := nd]) count) \<le> card (marked array count) + 1"
proof -
  assume "p < length array"
  have "marked (array[p := nd]) count \<subseteq> insert p (marked array count)"
    by (auto simp: marked_def nth_list_update split: if_splits)
  then have "card (marked (array[p := nd]) count) \<le> card (insert p (marked array count))"
    by (intro card_mono) (simp_all add: finite_marked)
  also have "\<dots> \<le> card (marked array count) + 1"
    by (simp add: card_insert_if finite_marked)
  finally show ?thesis .
qed

lemma marked_remark:
  "p < length array \<Longrightarrow> ptr (array ! p) \<noteq> Null \<Longrightarrow> ptr nd \<noteq> Null \<Longrightarrow>
   marked (array[p := nd]) count = marked array count"
  by (auto simp: marked_def nth_list_update split: if_splits)

lemma unmarked_exists:
  assumes "card (marked array count) < count"
  shows "\<exists>k<count. ptr (array ! k) = Null"
proof (rule ccontr)
  assume "\<not> (\<exists>k<count. ptr (array ! k) = Null)"
  then have "marked array count = {..<count}"
    by (auto simp: marked_def)
  with assms show False by simp
qed

lemma rand_loop_returns:
  "count \<le> length array \<Longrightarrow> card (marked array count) \<le> i \<Longrightarrow>
   rand_loop rnd array count i p probes \<noteq> None"
proof (induction rnd array count i p probes rule: rand_loop.induct)
  case (1 rnd array count i p probes)
  show ?case
  proof (cases "i + 1 < count \<and> p < length array")
    case False
    then show ?thesis
      by (subst rand_loop.simps) auto
  next
    case True
    define a where "a = array[p := (array ! p)\<lparr>ptr := Occupied\<rparr>]"
    from True have p: "p < length array" and i: "i + 1 < count" by simp_all
    have "card (marked a count) \<le> i + 1"
      using marked_update [OF p, of _ count] "1.prems"(2) unfolding a_def
      by (meson add_le_mono1 le_trans)
    with i have "card (marked a count) < count" by simp
    then obtain k where k: "k < count" "ptr (a ! k) = Null"
      using unmarked_exists by blast
    with "1.prems"(1) have "k < length a" by (simp add: a_def)
    from scan_returns [OF k(1) this k(2)]
    obtain x where x: "scan a count (rnd i mod count) probes = Some x"
      by blast
    show ?thesis
    proof (cases x)
      case (Inl e)
      with x True show ?thesis
        by (subst rand_loop.simps) (simp add: a_def [symmetric])
    next
      case (Inr jp)
      obtain j probes' where jp: "jp = (j, probes')" by (cases jp)
      let ?b = "a[p := (a ! p)\<lparr>ptr := Addr j\<rparr>]"
      have "marked ?b count = marked a count"
        using p by (intro marked_remark) (simp_all add: a_def)
      with \<open>card (marked a count) \<le> i + 1\<close> have m: "card (marked ?b count) \<le> i + 1"
        by simp
      from "1.prems"(1) have l: "count \<le> length ?b" by (simp add: a_def)
      have "rand_loop rnd ?b count (i + 1) j probes' \<noteq> None"
        using "1.IH" [OF i p a_def x [unfolded Inr jp] refl refl l m] .
      with x Inr jp True show ?thesis
        by (subst rand_loop.simps) (simp add: a_def [symmetric])
    qed
  qed
qed

lemma memset0_clears:
  assumes "memset0 clr array n = Inr a"
  shows "length a = length array \<and> n div NODE_SIZE \<le> length a
    \<and> marked a (n div NODE_SIZE) = {}"
proof -
  define full where "full = n div NODE_SIZE"
  define b where "b = replicate full zero_node @ drop full array"
  from assms have le: "n \<le> length array * NODE_SIZE"
    by (auto simp: memset0_def Let_def split: if_splits)
  then have "n div NODE_SIZE \<le> length array * NODE_SIZE div NODE_SIZE"
    by (rule div_le_mono)
  then have f: "full \<le> length array"
    by (simp add: full_def NODE_SIZE_def)
  then have lb: "length b = length array"
    by (simp add: b_def)
  have nb: "b ! k = zero_node" if "k < full" for k
    using that by (simp add: b_def nth_append)
  from assms le have a: "a = b \<or> a = b[full := clr (n mod NODE_SIZE) (b ! full)]"
    by (auto simp: memset0_def Let_def full_def b_def split: if_splits)
  then have "length a = length array"
    using lb by auto
  moreover from a nb have "ptr (a ! k) = Null" if "k < full" for k
    using that by (auto simp: zero_node_def)
  then have "marked a full = {}"
    by (auto simp: marked_def)
  ultimately show ?thesis
    using f by (simp add: full_def)
qed

lemma prepare_random_returns: "\<exists>x. prepare_random clr rnd array sz = Some x"
proof (cases "memset0 clr array (unat sz)")
  case (Inl e)
  then show ?thesis
    by (simp add: prepare_random_def)
next
  case (Inr a0)
  from memset0_clears [OF Inr]
  have "unat sz div NODE_SIZE \<le> length a0"
    and "card (marked a0 (unat sz div NODE_SIZE)) \<le> 0"
    by simp_all
  then have "rand_loop rnd a0 (unat sz div NODE_SIZE) 0 0 [] \<noteq> None"
    by (rule rand_loop_returns)
  then obtain y where "rand_loop rnd a0 (unat sz div NODE_SIZE) 0 0 [] = Some y"
    by blast
  with Inr show ?thesis
    by (simp add: prepare_random_def Let_def split: sum.splits prod.splits)
qed

lemma prepare_returns: "\<exists>x. prepare clr rnd array sz sq = Some x"
  using prepare_random_returns [of clr rnd array sz]
  by (auto simp: prepare_def split: sum.splits)

subsection \<open>Random mode: a run on three nodes\<close>

text \<open>
  \<open>size = 192\<close>, so \<open>count = 3\<close>, on the arena \<open>fresh rest\<close>, with \<^verbatim>\<open>rand()\<close> returning
  2 at both calls. The first scan starts at node 2 and takes it. The second starts at
  node 2 again, finds it taken, steps to index 3 since \<open>2 >= 3\<close> is false, and takes
  node 3.
\<close>

lemma memset0_192: "memset0 clr (fresh rest) 192 = Inr (fresh rest)"
  by (simp add: memset0_def NODE_SIZE_def fresh_def numeral_3_eq_3)

lemma scan_first:
  "scan (zero_node\<lparr>ptr := Occupied\<rparr> # zero_node # zero_node # zero_node # rest) 3 2 []
     = Some (Inr (2, [2]))"
  by (rule scan_stop [where probes = "[]", simplified]) (simp_all add: zero_node_def numeral_2_eq_2)

lemma scan_second:
  "scan (zero_node\<lparr>ptr := Addr 2\<rparr> # zero_node # zero_node\<lparr>ptr := Occupied\<rparr> # zero_node # rest)
      3 2 [2] = Some (Inr (3, [2, 2, 3]))"
proof -
  let ?a = "zero_node\<lparr>ptr := Addr 2\<rparr> # zero_node # zero_node\<lparr>ptr := Occupied\<rparr> # zero_node # rest"
  have "scan ?a 3 2 [2] = scan ?a 3 3 [2, 2]"
    using scan_next [of 2 ?a 3 "[2]"] by (simp add: numeral_2_eq_2 numeral_3_eq_3)
  also have "\<dots> = Some (Inr (3, [2, 2, 3]))"
    using scan_stop [of 3 ?a 3 "[2, 2]"] by (simp add: zero_node_def numeral_3_eq_3)
  finally show ?thesis .
qed

lemma rand_loop_192:
  "rand_loop (\<lambda>i. 2) (fresh rest) 3 0 0 [] =
     Some (Inr (zero_node\<lparr>ptr := Addr 2\<rparr> # zero_node # zero_node\<lparr>ptr := Addr 3\<rparr>
                 # zero_node # rest, 3, [2, 2, 3]))"
proof -
  let ?a1 = "zero_node\<lparr>ptr := Addr 2\<rparr> # zero_node # zero_node # zero_node # rest"
  let ?a2 = "zero_node\<lparr>ptr := Addr 2\<rparr> # zero_node # zero_node\<lparr>ptr := Addr 3\<rparr> # zero_node # rest"
  have "rand_loop (\<lambda>i. 2) (fresh rest) 3 0 0 [] = rand_loop (\<lambda>i. 2) ?a1 3 1 2 [2]"
    using rand_loop_next [of 0 3 0 "fresh rest" "\<lambda>i. 2" "[]" 2 "[2]"] scan_first [of rest]
    by (simp add: fresh_def)
  also have "\<dots> = rand_loop (\<lambda>i. 2) ?a2 3 2 3 [2, 2, 3]"
    using rand_loop_next [of 1 3 2 ?a1 "\<lambda>i. 2" "[2]" 3 "[2, 2, 3]"] scan_second [of rest]
    by (simp add: numeral_2_eq_2)
  also have "\<dots> = Some (Inr (?a2, 3, [2, 2, 3]))"
    by (rule rand_loop_end) simp
  finally show ?thesis .
qed

lemma prepare_random_192:
  "prepare clr (\<lambda>i. 2) (fresh rest) 192 False =
     Some (Inr (zero_node\<lparr>ptr := Addr 2\<rparr> # zero_node # zero_node\<lparr>ptr := Addr 3\<rparr>
                 # zero_node\<lparr>ptr := Addr 0\<rparr> # rest, [2, 2, 3]))"
proof -
  have c: "(192 :: nat) div NODE_SIZE = 3" and u: "unat (192 :: u32) = 192"
    by (simp_all add: NODE_SIZE_def)
  show ?thesis
    unfolding prepare_def prepare_random_def Let_def u c memset0_192
    by (simp add: rand_loop_192)
qed

lemma cyc_023:
  "is_cycle (zero_node\<lparr>ptr := Addr 2\<rparr> # zero_node # zero_node\<lparr>ptr := Addr 3\<rparr>
                 # zero_node\<lparr>ptr := Addr 0\<rparr> # rest) [0, 2, 3]"
proof -
  have u: "[0..<length [0, 2, 3 :: nat]] = [0, 1, 2]"
    by (simp add: upt_rec)
  show ?thesis
    unfolding is_cycle_def u by simp
qed

section \<open>The worker\<close>

lemma benchmark_thread_returns:
  "\<exists>x. benchmark_thread a fdiv clr rnd ok h_tic h_tac arrays c cpu = Some x"
proof -
  obtain x where "prepare clr rnd (arrays ! cpu) (size' c) (sequential c) = Some x"
    using prepare_returns by blast
  then show ?thesis
    by (simp add: benchmark_thread_def Let_def split: sum.splits prod.splits)
qed

lemma benchmark_thread_sequential:
  assumes "ok" and "cpu < length arrays" and "sequential c"
    and "1 \<le> unat (size' c) div NODE_SIZE"
    and "unat (size' c) div NODE_SIZE \<le> length (arrays ! cpu)"
    and "write' c \<longrightarrow> unat (ofs c) < DUMMY_LEN"
  shows "\<exists>r. benchmark_thread a fdiv clr rnd ok h_tic h_tac arrays c cpu = Some (Inr r)"
proof -
  from prepare_sequential_cycle [OF assms(4,5)] obtain b where
    b: "prepare_sequential (arrays ! cpu) (unat (size' c) div NODE_SIZE) = Inr b"
    and cyc: "is_cycle b [0..<unat (size' c) div NODE_SIZE]"
    by blast
  from b assms(3) have p: "prepare clr rnd (arrays ! cpu) (size' c) (sequential c) = Some (Inr (b, []))"
    by (simp add: prepare_def)
  show ?thesis
  proof (cases "write' c")
    case False
    with p assms(1,2) show ?thesis
      by (simp add: benchmark_thread_def Let_def do_read_cycle [OF cyc])
  next
    case True
    with assms(6) have "unat (ofs c) < DUMMY_LEN" by simp
    with p assms(1,2) True show ?thesis
      by (simp add: benchmark_thread_def Let_def do_write_cycle [OF cyc])
  qed
qed

lemma result_of_run:
  assumes "benchmark_thread a fdiv clr rnd ok h_tic h_tac arrays c cpu = Some (Inr r)"
  shows "result r = fdiv (get_time a c h_tac - get_time a c h_tic) (read_count c)
    \<and> batches r = unat (read_count c div 32 - 1)
    \<and> steps (final r) = 32 * batches r
    \<and> steps (final r) \<noteq> unat (read_count c)"
proof -
  from assms obtain prepared probes w b where
    t: "(if write' c = False then do_read prepared (read_count c)
         else do_write prepared (read_count c) (ofs c)) = Inr (w, b)"
    and r: "r = \<lparr>result = fdiv (get_time a c h_tac - get_time a c h_tic) (read_count c),
                 final = w, batches = b\<rparr>"
    by (auto simp: benchmark_thread_def Let_def split: if_splits option.splits sum.splits prod.splits)
  have "b = unat (read_count c div 32 - 1) \<and> steps w = 32 * b"
  proof (cases "write' c = False")
    case True
    with t show ?thesis
      using traversal_counts [of read_step "read_count c" prepared w b]
      by (simp add: do_read_def Let_def read_step_steps)
  next
    case False
    with t show ?thesis
      using traversal_counts [of "write_step (ofs c)" "read_count c" prepared w b]
      by (simp add: do_write_def Let_def write_step_steps)
  qed
  with r steps_never_requested [of "read_count c"] show ?thesis
    by simp
qed

lemma demo_run:
  "benchmark_thread OtherArch Pair (\<lambda>r nd. nd) (\<lambda>i. 0) demo_affinity demo_tic demo_tac [three_nodes] demo_cfg 0
     = Some (Inr \<lparr>result = (999999995, 64),
                  final = \<lparr>arr = [\<lparr>ptr = Addr 1, dummy = replicate 14 0\<rparr>,
                                  \<lparr>ptr = Addr 2, dummy = replicate 14 0\<rparr>,
                                  \<lparr>ptr = Addr 0, dummy = replicate 14 0\<rparr>],
                           cur = Addr 2, steps = 32\<rparr>,
                  batches = 1\<rparr>)"
  by code_simp

section \<open>The claims\<close>

text \<open>
  C1, at an input where the code leaves the working set: an arena whose first four
  nodes are zero-initialised, \<open>size = 192\<close> (so \<open>count = 3\<close>), random mode, and
  \<^verbatim>\<open>rand()\<close> returning 2 twice. The generated cycle is \<open>0 \<rightarrow> 2 \<rightarrow> 3 \<rightarrow> 0\<close>: node 3 lies
  outside the first three nodes, and node 1 is never linked.
\<close>

theorem prepare_random_leaves_working_set:
  "\<exists>a probes. prepare clr (\<lambda>i. 2) (fresh rest) 192 False = Some (Inr (a, probes))
     \<and> unat (192 :: u32) div NODE_SIZE = 3
     \<and> is_cycle a [0, 2, 3] \<and> ptr (a ! 1) = Null"
  by (simp add: prepare_random_192 cyc_023 NODE_SIZE_def) (simp add: zero_node_def)

text \<open>
  C2. The claim that the read-only traversal performs \<open>floor(op_count/32)*32\<close> steps
  fails at \<open>op_count = 32\<close>, on an arena of one node linked to itself: no step is
  performed, not 32.
\<close>

theorem do_read_steps_counterexample:
  "\<exists>w b. do_read one_node 32 = Inr (w, b) \<and> steps w = 0
     \<and> steps w \<noteq> unat (32 :: u32) div 32 * 32"
  by (simp add: do_read_def start_def while_predec.simps)

text \<open>
  C2, as the code has it: on an arena whose nodes form a cycle through node 0, and for a
  requested count of at least 32, the read-only traversal executes
  \<open>floor(op_count/32) - 1\<close> batches, that is \<open>(floor(op_count/32) - 1) * 32\<close> steps.
\<close>

theorem do_read_steps:
  assumes "is_cycle a cs" and "32 \<le> reads"
  shows "\<exists>w. do_read a reads = Inr (w, unat reads div 32 - 1)
           \<and> steps w = (unat reads div 32 - 1) * 32"
  using do_read_cycle [OF assms(1), of reads] batches_large [OF assms(2)]
  by (simp add: read_inv_def)

theorem do_read_steps_witness:
  "is_cycle one_node [0] \<and> (32 :: u32) \<le> 100 \<and>
   (\<exists>w. do_read one_node 100 = Inr (w, 2) \<and> steps w = 64)"
  using do_read_steps [of one_node "[0]" 100] is_cycle_one_node by simp

text \<open>
  C3. The claim fails for the options \<^verbatim>\<open>-s 1024 -y\<close> on a build without
  \<^verbatim>\<open>__aarch64__\<close>: \<^verbatim>\<open>main\<close> accepts the configuration and the timing source returns 0.
\<close>

theorem cycle_mode_unsupported_counterexample:
  "\<exists>c. main [Opt_s 1024, Opt_y] = Inr [c] \<and> use_cycles c
     \<and> get_time OtherArch c \<lparr>tv_sec = 5, tv_nsec = 7, pmccntr = 9\<rparr> = 0"
  by (simp add: main_def dflt_def get_time_def ccntr_get_def ARENA_BYTES_def ARENA_NODES_def
      NODE_SIZE_def)

text \<open>
  C3, as the code has it: on a build without \<^verbatim>\<open>__aarch64__\<close> the option \<^verbatim>\<open>-y\<close> is
  accepted, every reading of the timing source in cycle-counter mode is the constant 0,
  and so is every elapsed time.
\<close>

theorem cycle_mode_other_arch:
  "handle_opt c Opt_y = Inr (c\<lparr>use_cycles := True\<rparr>)
   \<and> get_time OtherArch (c\<lparr>use_cycles := True\<rparr>) h = 0
   \<and> get_time OtherArch (c\<lparr>use_cycles := True\<rparr>) h_tac
       - get_time OtherArch (c\<lparr>use_cycles := True\<rparr>) h_tic = 0"
  by (simp add: get_time_def ccntr_get_def)

text \<open>
  C4, at an input where the code leaves the worker array: \<^verbatim>\<open>main\<close> accepts
  \<^verbatim>\<open>-t 9 -s 1024\<close>, and \<^verbatim>\<open>run_benchmark\<close> then writes \<^verbatim>\<open>thread[8]\<close>, outside
  \<^verbatim>\<open>thread[MAX_CPUS]\<close>.
\<close>

theorem run_benchmark_nine_threads:
  "\<exists>c. main [Opt_t 9, Opt_s 1024] = Inr [c] \<and> num_threads c = 9
     \<and> run_benchmark c = Inl OutOfBounds"
  by (simp add: main_def dflt_def ARENA_BYTES_def ARENA_NODES_def NODE_SIZE_def
      run_benchmark_def spawn.simps MAX_CPUS_def)

text \<open>
  C5. On an arena whose nodes \<open>cs\<close> form a cycle through node 0 (sequential generation
  gives one of every length \<open>count >= 1\<close>, see \<open>prepare_sequential_cycle\<close>), and for an
  offset inside \<^verbatim>\<open>dummy\<close>:
  \<^item> at no point of a write traversal has a \<^verbatim>\<open>ptr\<close> field changed;
  \<^item> \<^verbatim>\<open>do_write\<close> executes \<open>unat (accesses div 32 - 1)\<close> batches and ends in the state
    after that many times 32 steps: no \<^verbatim>\<open>ptr\<close> field has changed, the word at the
    offset of the \<open>i\<close>-th node of the cycle has grown by the number of full passes,
    plus one if the last, partial pass reached the node, and the nodes outside the cycle
    are as before;
  \<^item> after \<open>k\<close> full passes the cursor is back at node 0 and the word at the offset
    has grown by \<open>k\<close> (modulo \<open>2^32\<close>) in every node of the cycle, every other word
    of the padding being as before;
  \<^item> so when the steps of \<^verbatim>\<open>do_write\<close> make \<open>k\<close> full passes, that is the state it
    ends in.
\<close>

theorem do_write_frame_and_passes:
  assumes "is_cycle a cs" and "unat wofs < DUMMY_LEN"
  shows "(\<forall>m. \<exists>w. iter m (write_step wofs) (start a) = Inr w \<and> map ptr (arr w) = map ptr a)
    \<and> (\<exists>w. do_write a accesses wofs = Inr (w, unat (accesses div 32 - 1))
          \<and> iter (unat (accesses div 32 - 1) * 32) (write_step wofs) (start a) = Inr w
          \<and> steps w = unat (accesses div 32 - 1) * 32
          \<and> cur w = Addr (cs ! (unat (accesses div 32 - 1) * 32 mod length cs))
          \<and> length (arr w) = length a
          \<and> map ptr (arr w) = map ptr a
          \<and> (\<forall>i<length cs. dummy (arr w ! (cs ! i)) =
                (dummy (a ! (cs ! i)))[unat wofs := dummy (a ! (cs ! i)) ! unat wofs
                   + of_nat (unat (accesses div 32 - 1) * 32 div length cs
                       + (if i < unat (accesses div 32 - 1) * 32 mod length cs then 1 else 0))])
          \<and> (\<forall>x<length a. x \<notin> set cs \<longrightarrow> arr w ! x = a ! x))
    \<and> (\<forall>k. \<exists>w. iter (k * length cs) (write_step wofs) (start a) = Inr w
          \<and> cur w = Addr 0 \<and> length (arr w) = length a
          \<and> (\<forall>x<length a. dummy (arr w ! x) =
                (if x \<in> set cs
                 then (dummy (a ! x))[unat wofs := dummy (a ! x) ! unat wofs + of_nat k]
                 else dummy (a ! x))))
    \<and> (\<forall>k. unat (accesses div 32 - 1) * 32 = k * length cs \<longrightarrow>
          (\<exists>w. do_write a accesses wofs = Inr (w, unat (accesses div 32 - 1))
            \<and> cur w = Addr 0 \<and> length (arr w) = length a
            \<and> map ptr (arr w) = map ptr a
            \<and> (\<forall>x<length a. dummy (arr w ! x) =
                  (if x \<in> set cs
                   then (dummy (a ! x))[unat wofs := dummy (a ! x) ! unat wofs + of_nat k]
                   else dummy (a ! x)))))"
proof (intro conjI allI impI)
  fix m
  show "\<exists>w. iter m (write_step wofs) (start a) = Inr w \<and> map ptr (arr w) = map ptr a"
    by (simp add: iter_write_cycle [OF assms] map_ptr_write_inv)
next
  show "\<exists>w. do_write a accesses wofs = Inr (w, unat (accesses div 32 - 1))
          \<and> iter (unat (accesses div 32 - 1) * 32) (write_step wofs) (start a) = Inr w
          \<and> steps w = unat (accesses div 32 - 1) * 32
          \<and> cur w = Addr (cs ! (unat (accesses div 32 - 1) * 32 mod length cs))
          \<and> length (arr w) = length a
          \<and> map ptr (arr w) = map ptr a
          \<and> (\<forall>i<length cs. dummy (arr w ! (cs ! i)) =
                (dummy (a ! (cs ! i)))[unat wofs := dummy (a ! (cs ! i)) ! unat wofs
                   + of_nat (unat (accesses div 32 - 1) * 32 div length cs
                       + (if i < unat (accesses div 32 - 1) * 32 mod length cs then 1 else 0))])
          \<and> (\<forall>x<length a. x \<notin> set cs \<longrightarrow> arr w ! x = a ! x)"
    by (rule do_write_final [OF assms])
next
  fix k
  show "\<exists>w. iter (k * length cs) (write_step wofs) (start a) = Inr w
          \<and> cur w = Addr 0 \<and> length (arr w) = length a
          \<and> (\<forall>x<length a. dummy (arr w ! x) =
                (if x \<in> set cs
                 then (dummy (a ! x))[unat wofs := dummy (a ! x) ! unat wofs + of_nat k]
                 else dummy (a ! x)))"
    by (rule passes_state [OF assms])
next
  fix k
  assume e: "unat (accesses div 32 - 1) * 32 = k * length cs"
  from passes_state [OF assms, of k] obtain w where
    w: "iter (k * length cs) (write_step wofs) (start a) = Inr w"
    and p: "cur w = Addr 0" "length (arr w) = length a"
      "\<forall>x<length a. dummy (arr w ! x) =
                (if x \<in> set cs
                 then (dummy (a ! x))[unat wofs := dummy (a ! x) ! unat wofs + of_nat k]
                 else dummy (a ! x))"
    by blast
  from do_write_final [OF assms, of accesses] obtain w' where
    w': "do_write a accesses wofs = Inr (w', unat (accesses div 32 - 1))"
      "iter (unat (accesses div 32 - 1) * 32) (write_step wofs) (start a) = Inr w'"
      "map ptr (arr w') = map ptr a"
    by blast
  from w w'(2) e have "w' = w" by simp
  with w' p show "\<exists>w. do_write a accesses wofs = Inr (w, unat (accesses div 32 - 1))
            \<and> cur w = Addr 0 \<and> length (arr w) = length a
            \<and> map ptr (arr w) = map ptr a
            \<and> (\<forall>x<length a. dummy (arr w ! x) =
                  (if x \<in> set cs
                   then (dummy (a ! x))[unat wofs := dummy (a ! x) ! unat wofs + of_nat k]
                   else dummy (a ! x)))"
    by blast
qed

theorem do_write_frame_and_passes_witness:
  "is_cycle two_nodes [0, 1] \<and> unat (3 :: u32) < DUMMY_LEN
   \<and> unat ((96 :: u32) div 32 - 1) * 32 = 32 * length [0, 1 :: nat]
   \<and> (\<exists>w. do_write two_nodes 96 3 = Inr (w, 2) \<and> cur w = Addr 0
         \<and> map ptr (arr w) = [Addr 1, Addr 0]
         \<and> dummy (arr w ! 0) ! 3 = 32 \<and> dummy (arr w ! 1) ! 3 = 39
         \<and> dummy (arr w ! 1) ! 2 = 7)
   \<and> (\<exists>w. iter 10 (write_step 3) (start two_nodes) = Inr w \<and> cur w = Addr 0
         \<and> dummy (arr w ! 0) ! 3 = 5 \<and> dummy (arr w ! 1) ! 3 = 12)"
proof -
  have o: "unat (3 :: u32) < DUMMY_LEN"
    by (simp add: DUMMY_LEN_def PTR_SIZE_def)
  have b: "unat ((96 :: u32) div 32 - 1) = 2"
    by simp
  then have e: "unat ((96 :: u32) div 32 - 1) * 32 = 32 * length [0, 1 :: nat]"
    by simp
  note t = do_write_frame_and_passes [OF is_cycle_two_nodes o, of 96]
  from t e obtain w where w: "do_write two_nodes 96 3 = Inr (w, unat ((96 :: u32) div 32 - 1))"
    "cur w = Addr 0" "map ptr (arr w) = map ptr two_nodes"
    and x: "\<forall>x<length two_nodes. dummy (arr w ! x) =
                  (if x \<in> set [0, 1]
                   then (dummy (two_nodes ! x))[unat (3 :: u32) :=
                          dummy (two_nodes ! x) ! unat (3 :: u32) + of_nat 32]
                   else dummy (two_nodes ! x))"
    by blast
  from x have "dummy (arr w ! 0) = (dummy (two_nodes ! 0))[3 := dummy (two_nodes ! 0) ! 3 + 32]"
    and "dummy (arr w ! 1) = (dummy (two_nodes ! 1))[3 := dummy (two_nodes ! 1) ! 3 + 32]"
    by (simp_all add: two_nodes_def)
  then have "dummy (arr w ! 0) ! 3 = 32 \<and> dummy (arr w ! 1) ! 3 = 39 \<and> dummy (arr w ! 1) ! 2 = 7"
    by (simp add: two_nodes_def numeral_eq_Suc)
  with w b have A: "\<exists>w. do_write two_nodes 96 3 = Inr (w, 2) \<and> cur w = Addr 0
         \<and> map ptr (arr w) = [Addr 1, Addr 0]
         \<and> dummy (arr w ! 0) ! 3 = 32 \<and> dummy (arr w ! 1) ! 3 = 39
         \<and> dummy (arr w ! 1) ! 2 = 7"
    by (auto simp: two_nodes_def)
  from t have "\<exists>w. iter (5 * length [0, 1 :: nat]) (write_step 3) (start two_nodes) = Inr w
          \<and> cur w = Addr 0 \<and> length (arr w) = length two_nodes
          \<and> (\<forall>x<length two_nodes. dummy (arr w ! x) =
                (if x \<in> set [0, 1]
                 then (dummy (two_nodes ! x))[unat (3 :: u32) :=
                        dummy (two_nodes ! x) ! unat (3 :: u32) + of_nat 5]
                 else dummy (two_nodes ! x)))"
    by blast
  then obtain v where v: "iter 10 (write_step 3) (start two_nodes) = Inr v" "cur v = Addr 0"
    and y: "\<forall>x<2. dummy (arr v ! x) =
        (dummy (two_nodes ! x))[3 := dummy (two_nodes ! x) ! 3 + 5]"
    by (auto simp: two_nodes_def)
  from y have "dummy (arr v ! 0) = (dummy (two_nodes ! 0))[3 := dummy (two_nodes ! 0) ! 3 + 5]"
    and "dummy (arr v ! 1) = (dummy (two_nodes ! 1))[3 := dummy (two_nodes ! 1) ! 3 + 5]"
    by simp_all
  then have "dummy (arr v ! 0) ! 3 = 5 \<and> dummy (arr v ! 1) ! 3 = 12"
    by (simp add: two_nodes_def numeral_eq_Suc)
  with v have B: "\<exists>w. iter 10 (write_step 3) (start two_nodes) = Inr w \<and> cur w = Addr 0
         \<and> dummy (arr w ! 0) ! 3 = 5 \<and> dummy (arr w ! 1) ! 3 = 12"
    by blast
  from is_cycle_two_nodes o e A B show ?thesis
    by blast
qed

text \<open>
  C6. A worker always returns. Whenever it returns a result, the result is the difference
  of the two readings of the timing source divided by the requested count
  \<^verbatim>\<open>read_count\<close>, while the number of steps the traversal executed is 32 times the
  number of batches and never equals the requested count. In sequential mode, with a
  size of at least one node that fits the arena and a write offset inside \<^verbatim>\<open>dummy\<close>, it
  does return a result.
\<close>

theorem result_divides_by_requested:
  "(\<exists>x. benchmark_thread a fdiv clr rnd ok h_tic h_tac arrays c cpu = Some x)
   \<and> (\<forall>r. benchmark_thread a fdiv clr rnd ok h_tic h_tac arrays c cpu = Some (Inr r) \<longrightarrow>
          result r = fdiv (get_time a c h_tac - get_time a c h_tic) (read_count c)
        \<and> batches r = unat (read_count c div 32 - 1)
        \<and> steps (final r) = 32 * batches r
        \<and> steps (final r) \<noteq> unat (read_count c))
   \<and> (ok \<and> cpu < length arrays \<and> sequential c
        \<and> 1 \<le> unat (size' c) div NODE_SIZE
        \<and> unat (size' c) div NODE_SIZE \<le> length (arrays ! cpu)
        \<and> (write' c \<longrightarrow> unat (ofs c) < DUMMY_LEN) \<longrightarrow>
        (\<exists>r. benchmark_thread a fdiv clr rnd ok h_tic h_tac arrays c cpu = Some (Inr r)))"
proof (intro conjI allI impI)
  show "\<exists>x. benchmark_thread a fdiv clr rnd ok h_tic h_tac arrays c cpu = Some x"
    by (rule benchmark_thread_returns)
next
  fix r
  assume "benchmark_thread a fdiv clr rnd ok h_tic h_tac arrays c cpu = Some (Inr r)"
  then have "result r = fdiv (get_time a c h_tac - get_time a c h_tic) (read_count c)
    \<and> batches r = unat (read_count c div 32 - 1)
    \<and> steps (final r) = 32 * batches r
    \<and> steps (final r) \<noteq> unat (read_count c)"
    by (rule result_of_run)
  then show "result r = fdiv (get_time a c h_tac - get_time a c h_tic) (read_count c)"
    and "batches r = unat (read_count c div 32 - 1)"
    and "steps (final r) = 32 * batches r"
    and "steps (final r) \<noteq> unat (read_count c)"
    by simp_all
next
  assume "ok \<and> cpu < length arrays \<and> sequential c
        \<and> 1 \<le> unat (size' c) div NODE_SIZE
        \<and> unat (size' c) div NODE_SIZE \<le> length (arrays ! cpu)
        \<and> (write' c \<longrightarrow> unat (ofs c) < DUMMY_LEN)"
  then show "\<exists>r. benchmark_thread a fdiv clr rnd ok h_tic h_tac arrays c cpu = Some (Inr r)"
    by (intro benchmark_thread_sequential) simp_all
qed

theorem result_divides_by_requested_witness:
  "demo_affinity \<and> (0 :: nat) < length [three_nodes] \<and> sequential demo_cfg
   \<and> 1 \<le> unat (size' demo_cfg) div NODE_SIZE
   \<and> unat (size' demo_cfg) div NODE_SIZE \<le> length ([three_nodes] ! 0)
   \<and> (\<exists>r. benchmark_thread OtherArch Pair (\<lambda>r nd. nd) (\<lambda>i. 0) demo_affinity demo_tic demo_tac
          [three_nodes] demo_cfg 0 = Some (Inr r)
     \<and> result r = (999999995, 64)
     \<and> batches r = 1 \<and> steps (final r) = 32 \<and> steps (final r) \<noteq> unat (read_count demo_cfg))"
proof -
  have v: "demo_affinity" "(0 :: nat) < length [three_nodes]" "sequential demo_cfg"
    "1 \<le> unat (size' demo_cfg) div NODE_SIZE"
    "unat (size' demo_cfg) div NODE_SIZE \<le> length ([three_nodes] ! 0)"
    "\<not> write' demo_cfg"
    by (simp_all add: demo_affinity_def demo_cfg_def dflt_def NODE_SIZE_def three_nodes_def)
  note t = result_divides_by_requested [of OtherArch Pair "\<lambda>r nd. nd" "\<lambda>i. 0" demo_affinity
      demo_tic demo_tac "[three_nodes]" demo_cfg 0]
  from t v obtain r where
    r: "benchmark_thread OtherArch Pair (\<lambda>r nd. nd) (\<lambda>i. 0) demo_affinity demo_tic demo_tac
          [three_nodes] demo_cfg 0 = Some (Inr r)"
    by blast
  with t have "result r = (get_time OtherArch demo_cfg demo_tac - get_time OtherArch demo_cfg demo_tic,
        read_count demo_cfg)"
    and "batches r = unat (read_count demo_cfg div 32 - 1)"
    and "steps (final r) = 32 * batches r"
    and "steps (final r) \<noteq> unat (read_count demo_cfg)"
    by blast+
  then have "result r = (999999995, 64) \<and> batches r = 1 \<and> steps (final r) = 32
     \<and> steps (final r) \<noteq> unat (read_count demo_cfg)"
    by (simp add: get_time_def demo_cfg_def demo_tic_def demo_tac_def dflt_def)
  with r v show ?thesis
    by blast
qed

text \<open>
  C7. For a count of at least 1 that fits the arena, sequential generation returns the
  same arena whatever the random source, with \<open>next[i] = i+1\<close> for \<open>i < count-1\<close> and
  \<open>next[count-1] = 0\<close>; the padding and the nodes from \<open>count\<close> on are untouched.
\<close>

theorem prepare_sequential_links:
  assumes "1 \<le> unat sz div NODE_SIZE" and "unat sz div NODE_SIZE \<le> length array"
  shows "\<exists>a. (\<forall>clr rnd. prepare clr rnd array sz True = Some (Inr (a, [])))
    \<and> length a = length array
    \<and> (\<forall>i. i + 1 < unat sz div NODE_SIZE \<longrightarrow> ptr (a ! i) = Addr (i + 1))
    \<and> ptr (a ! (unat sz div NODE_SIZE - 1)) = Addr 0
    \<and> (\<forall>i<length array. dummy (a ! i) = dummy (array ! i))
    \<and> (\<forall>i<length array. unat sz div NODE_SIZE \<le> i \<longrightarrow> a ! i = array ! i)"
proof -
  define count where "count = unat sz div NODE_SIZE"
  from assms have c: "1 \<le> count" "count \<le> length array"
    by (simp_all add: count_def)
  from seq_loop_links [OF c(2), of 0] obtain b where
    b: "seq_loop array count 0 = Inr b" "length b = length array"
    and nth: "\<forall>k<length array. b ! k =
        (if k + 1 < count then (array ! k)\<lparr>ptr := Addr (k + 1)\<rparr> else array ! k)"
    by auto
  let ?a = "b[count - 1 := (b ! (count - 1))\<lparr>ptr := Addr 0\<rparr>]"
  have "prepare clr rnd array sz True = Some (Inr (?a, []))" for clr rnd
    using b c by (simp add: prepare_def prepare_sequential_def count_def [symmetric])
  moreover have "length ?a = length array"
    using b by simp
  moreover have "\<forall>i. i + 1 < count \<longrightarrow> ptr (?a ! i) = Addr (i + 1)"
    using nth b c by (auto simp: nth_list_update)
  moreover have "ptr (?a ! (count - 1)) = Addr 0"
    using b c by simp
  moreover have "\<forall>i<length array. dummy (?a ! i) = dummy (array ! i)"
    using nth b c by (auto simp: nth_list_update)
  moreover have "\<forall>i<length array. count \<le> i \<longrightarrow> ?a ! i = array ! i"
    using nth b c by (auto simp: nth_list_update)
  ultimately show ?thesis
    unfolding count_def by blast
qed

theorem prepare_sequential_links_witness:
  "1 \<le> unat (192 :: u32) div NODE_SIZE \<and> unat (192 :: u32) div NODE_SIZE \<le> length three_nodes
   \<and> (\<exists>a. prepare (\<lambda>r nd. nd) (\<lambda>i. 0) three_nodes 192 True = Some (Inr (a, []))
         \<and> ptr (a ! 0) = Addr 1 \<and> ptr (a ! 1) = Addr 2 \<and> ptr (a ! 2) = Addr 0)"
proof -
  have h: "1 \<le> unat (192 :: u32) div NODE_SIZE"
    "unat (192 :: u32) div NODE_SIZE \<le> length three_nodes"
    by (simp_all add: NODE_SIZE_def three_nodes_def)
  from prepare_sequential_links [OF h] obtain a where
    "prepare (\<lambda>r nd. nd) (\<lambda>i. 0) three_nodes 192 True = Some (Inr (a, []))"
    and "\<forall>i. i + 1 < unat (192 :: u32) div NODE_SIZE \<longrightarrow> ptr (a ! i) = Addr (i + 1)"
    and "ptr (a ! (unat (192 :: u32) div NODE_SIZE - 1)) = Addr 0"
    by blast
  then have "prepare (\<lambda>r nd. nd) (\<lambda>i. 0) three_nodes 192 True = Some (Inr (a, []))
         \<and> ptr (a ! 0) = Addr 1 \<and> ptr (a ! 1) = Addr 2 \<and> ptr (a ! 2) = Addr 0"
    by (simp add: NODE_SIZE_def)
  with h show ?thesis
    by blast
qed

text \<open>
  C8. For the requested operation count 32 the read-only traversal executes no batch
  at all: the counter starts at \<open>32 div 32 = 1\<close>, and the decrement before the first
  test makes it 0.
\<close>

theorem do_read_32_no_batch:
  "do_read array 32 = Inr (\<lparr>arr = array, cur = Addr 0, steps = 0\<rparr>, 0)"
  by (simp add: do_read_def start_def while_predec.simps)



text \<open>
  C10, at the same input as C1: the scans read \<^verbatim>\<open>array[j].ptr\<close> at the indices 2, 2
  and 3; the last one is \<open>count\<close> itself, one past the working set.
\<close>

theorem scan_probes_index_count:
  "\<exists>a probes. prepare clr (\<lambda>i. 2) (fresh rest) 192 False = Some (Inr (a, probes))
     \<and> probes = [2, 2, 3] \<and> unat (192 :: u32) div NODE_SIZE \<in> set probes"
  by (simp add: prepare_random_192 NODE_SIZE_def)

end
